theory Spec2Isabelle
  imports Complex_Main "HOL-Library.Multiset"
begin

section \<open>Frame numbers and playback positions\<close>

text \<open>
  The annotation dialog turns the media player's position (an integer number of
  milliseconds) into a frame number with \<^verbatim>\<open>int(position / 1000.0 * self.fps)\<close> and
  shows frame 1 whenever that number is not positive (\<^verbatim>\<open>position_changed\<close>,
  \<^verbatim>\<open>mark_enter\<close>, \<^verbatim>\<open>mark_exit\<close>). The frame rate is the number OpenCV reports,
  replaced by 25 when it is not positive.

  Python's \<^verbatim>\<open>float\<close> is the IEEE 754 double: every operation returns the double nearest
  to the exact result, a tie going to the even mantissa. A double is a rational number, so
  the arithmetic is modelled on \<open>rat\<close> with the rounding written out after each operation.
  Overflow and subnormal numbers are left out: the model is the double arithmetic for
  values between \<open>2 ^ -1022\<close> and \<open>2 ^ 1024\<close> in magnitude, which is where every
  statement below keeps them.
\<close>

text \<open>Python's \<^verbatim>\<open>int(x)\<close> on a number: truncation toward zero.\<close>

definition py_int :: "rat \<Rightarrow> int" where
  "py_int q = (if 0 \<le> q then \<lfloor>q\<rfloor> else \<lceil>q\<rceil>)"

text \<open>Python's \<^verbatim>\<open>round(x)\<close>: the nearest integer, a tie going to the even one.\<close>

definition py_round :: "rat \<Rightarrow> int" where
  "py_round q =
     (let f = \<lfloor>q\<rfloor>; d = q - of_int f in
      if d < 1 / 2 then f
      else if 1 / 2 < d then f + 1
      else if even f then f else f + 1)"

text \<open>The number of binary digits of a positive integer (Python's \<^verbatim>\<open>int.bit_length\<close>).\<close>

function bit_length :: "int \<Rightarrow> nat" where
  "bit_length n = (if n \<le> 0 then 0 else Suc (bit_length (n div 2)))"
  by pat_completeness auto
termination
  by (relation "measure nat") auto

declare bit_length.simps [simp del]

definition pow2 :: "int \<Rightarrow> rat" where
  "pow2 e = (if 0 \<le> e then 2 ^ nat e else 1 / 2 ^ nat (- e))"

text \<open>
  The binary exponent of a positive number: the \<open>e\<close> with \<open>2 ^ e \<le> q < 2 ^ (e + 1)\<close>
  (lemmas \<open>binade_lower\<close> and \<open>binade_upper\<close>).
\<close>

definition binade :: "rat \<Rightarrow> int" where
  "binade q =
     (if 1 \<le> q then int (bit_length \<lfloor>q\<rfloor>) - 1
      else - int (bit_length (\<lceil>1 / q\<rceil> - 1)))"

text \<open>
  Rounding to the nearest double: a double with binary exponent \<open>e\<close> is an integer
  multiple of \<open>2 ^ (e - 52)\<close> (53 significant bits), and a tie goes to the even multiple.
\<close>

definition round_double :: "rat \<Rightarrow> rat" where
  "round_double q =
     (if q = 0 then 0
      else if 0 < q then of_int (py_round (q / pow2 (binade q - 52))) * pow2 (binade q - 52)
      else - (of_int (py_round (- q / pow2 (binade (- q) - 52))) * pow2 (binade (- q) - 52)))"

text \<open>\<^verbatim>\<open>if self.fps <= 0: self.fps = 25\<close>\<close>

definition effective_fps :: "rat \<Rightarrow> rat" where
  "effective_fps r = (if r \<le> 0 then 25 else r)"

text \<open>
  \<^verbatim>\<open>frame = int(position / 1000.0 * self.fps)\<close> followed by
  \<^verbatim>\<open>frame if frame > 0 else 1\<close>. The integer position is converted to a double, divided
  by the double 1000.0, and the quotient multiplied by the frame rate, with a rounding after
  each of the three steps. \<open>fps\<close> is the value of the double \<^verbatim>\<open>self.fps\<close>.
\<close>

definition ms_to_frame :: "int \<Rightarrow> rat \<Rightarrow> int" where
  "ms_to_frame position fps =
     (let frame =
            py_int (round_double (round_double (round_double (of_int position) / 1000) * fps)) in
      if 0 < frame then frame else 1)"

text \<open>
  Modelled from the spec: the source has no function from a frame number back to a
  position; section 4.1 of the specification gives it as
  \<^verbatim>\<open>ms = round((frame - 1) * 1000 / fps)\<close>, the nearest millisecond to the exact quotient.
\<close>

definition frame_to_ms :: "int \<Rightarrow> rat \<Rightarrow> int" where
  "frame_to_ms frame fps = py_round (of_int (frame - 1) * 1000 / fps)"


section \<open>The annotation store\<close>

text \<open>
  \<^verbatim>\<open>self.annotations\<close> is a dictionary from intruder name to a dictionary that holds at
  most the keys \<^verbatim>\<open>"enter"\<close> and \<^verbatim>\<open>"exit"\<close>. Python dictionaries keep insertion order,
  which the clipping loop observes, so the store is an association list with one pair
  per key, in insertion order.
\<close>

record entry =
  enter :: "int option"
  exit :: "int option"

type_synonym annotations = "(string \<times> entry) list"

definition empty_entry :: entry where
  "empty_entry = \<lparr> enter = None, exit = None \<rparr>"

text \<open>\<^verbatim>\<open>name in d\<close> and \<^verbatim>\<open>d[name]\<close> (the latter only ever read after the former).\<close>

definition dict_get :: "annotations \<Rightarrow> string \<Rightarrow> entry option" where
  "dict_get d name = map_of d name"

text \<open>\<^verbatim>\<open>d[name] = v\<close>: an existing key keeps its place, a new key goes to the end.\<close>

fun dict_set :: "string \<Rightarrow> entry \<Rightarrow> annotations \<Rightarrow> annotations" where
  "dict_set name v [] = [(name, v)]"
| "dict_set name v ((k, w) # rest) =
     (if k = name then (k, v) # rest else (k, w) # dict_set name v rest)"

text \<open>The message boxes the two marking slots raise.\<close>

datatype notice =
    EnterAlreadyMarked string
  | MarkedEnter string int
  | ExitAlreadyMarked string
  | MarkedExit string int

text \<open>
  \<^verbatim>\<open>mark_enter\<close>. The player position, the frame rate and the answer of the text dialog
  (\<^verbatim>\<open>intruder_name, ok\<close>) are the inputs; the result is the store afterwards and the
  message box shown, if any. The warning \<open>EnterAlreadyMarked\<close> is the rejection of a
  duplicate mark.
\<close>

definition mark_enter ::
  "annotations \<Rightarrow> int \<Rightarrow> rat \<Rightarrow> string \<times> bool \<Rightarrow> annotations \<times> notice option" where
  "mark_enter anns current_position fps answer =
     (let frame = ms_to_frame current_position fps;
          (intruder_name, ok) = answer in
      if ok \<and> intruder_name \<noteq> [] then
        (case dict_get anns intruder_name of
           Some d \<Rightarrow>
             (if enter d \<noteq> None then (anns, Some (EnterAlreadyMarked intruder_name))
              else (dict_set intruder_name (d\<lparr>enter := Some frame\<rparr>) anns,
                    Some (MarkedEnter intruder_name frame)))
         | None \<Rightarrow>
             (dict_set intruder_name (empty_entry\<lparr>enter := Some frame\<rparr>) anns,
              Some (MarkedEnter intruder_name frame)))
      else (anns, None))"

text \<open>
  \<^verbatim>\<open>mark_exit\<close>. The names with an enter mark and no exit mark are offered in a
  drop-down list when there are any (\<open>get_item\<close>, given the list); otherwise a free
  text is asked for (\<open>get_text\<close>).
\<close>

definition available :: "annotations \<Rightarrow> string list" where
  "available anns =
     map fst (filter (\<lambda>(name, d). enter d \<noteq> None \<and> exit d = None) anns)"

definition mark_exit ::
  "annotations \<Rightarrow> int \<Rightarrow> rat \<Rightarrow> (string list \<Rightarrow> string \<times> bool) \<Rightarrow> string \<times> bool
     \<Rightarrow> annotations \<times> notice option" where
  "mark_exit anns current_position fps get_item get_text =
     (let frame = ms_to_frame current_position fps;
          (intruder_name, ok) =
             (if available anns \<noteq> [] then get_item (available anns) else get_text) in
      if ok \<and> intruder_name \<noteq> [] then
        (case dict_get anns intruder_name of
           Some d \<Rightarrow>
             (if exit d \<noteq> None then (anns, Some (ExitAlreadyMarked intruder_name))
              else (dict_set intruder_name (d\<lparr>exit := Some frame\<rparr>) anns,
                    Some (MarkedExit intruder_name frame)))
         | None \<Rightarrow>
             (dict_set intruder_name (empty_entry\<lparr>exit := Some frame\<rparr>) anns,
              Some (MarkedExit intruder_name frame)))
      else (anns, None))"


section \<open>Validation of the intervals\<close>

text \<open>
  The first half of \<^verbatim>\<open>clip_by_annotations\<close>: one pass over the store in insertion
  order that builds the triples \<^verbatim>\<open>(enter_frame, exit_frame, intruder)\<close>, a sort on the
  first component, and a scan of adjacent triples. Each \<^verbatim>\<open>return False, ...\<close> is a
  constructor of \<open>clip_error\<close>; \<open>error_message\<close> gives the text returned with it.
\<close>

type_synonym interval = "int \<times> int \<times> string"

definition enter_frame :: "interval \<Rightarrow> int" where
  "enter_frame iv = fst iv"

definition exit_frame :: "interval \<Rightarrow> int" where
  "exit_frame iv = fst (snd iv)"

definition intruder :: "interval \<Rightarrow> string" where
  "intruder iv = snd (snd iv)"

datatype clip_error =
    IncompleteAnnotation string
  | InvertedInterval string
  | Overlap string string
  | SourceUnopenable string

fun error_message :: "clip_error \<Rightarrow> string" where
  "error_message (IncompleteAnnotation l) =
     ''Incomplete annotation for intruder '' @ [CHR 39] @ l @ [CHR 39] @ ''.''"
| "error_message (InvertedInterval l) =
     ''Exit frame occurs before enter frame for intruder '' @ [CHR 39] @ l @ [CHR 39] @ ''.''"
| "error_message (Overlap a b) =
     ''Overlapping intruder intervals found between '' @ [CHR 39] @ a @ [CHR 39]
       @ '' and '' @ [CHR 39] @ b @ [CHR 39] @ ''.''"
| "error_message (SourceUnopenable p) = ''Could not open '' @ p @ '' for clipping.''"

text \<open>The loop over \<^verbatim>\<open>annotations.items()\<close>, with the list built so far.\<close>

fun collect_intervals :: "annotations \<Rightarrow> interval list \<Rightarrow> clip_error + interval list" where
  "collect_intervals [] intervals = Inr intervals"
| "collect_intervals ((name, d) # rest) intervals =
     (case (enter d, exit d) of
        (Some e, Some x) \<Rightarrow>
          (if x < e then Inl (InvertedInterval name)
           else collect_intervals rest (intervals @ [(e, x, name)]))
      | _ \<Rightarrow> Inl (IncompleteAnnotation name))"

text \<open>
  \<^verbatim>\<open>intervals.sort(key=lambda x: x[0])\<close>. Python's sort is stable; so is the insertion
  sort \<open>sort_key\<close>.
\<close>

definition sort_intervals :: "interval list \<Rightarrow> interval list" where
  "sort_intervals intervals = sort_key enter_frame intervals"

text \<open>
  \<^verbatim>\<open>for i in range(len(intervals) - 1)\<close>: the first adjacent pair with
  \<^verbatim>\<open>intervals[i+1][0] <= intervals[i][1]\<close> ends the function.
\<close>

fun check_overlap :: "interval list \<Rightarrow> clip_error option" where
  "check_overlap (a # b # rest) =
     (if enter_frame b \<le> exit_frame a then Some (Overlap (intruder a) (intruder b))
      else check_overlap (b # rest))"
| "check_overlap [a] = None"
| "check_overlap [] = None"

definition validate :: "annotations \<Rightarrow> clip_error + interval list" where
  "validate anns =
     (case collect_intervals anns [] of
        Inl err \<Rightarrow> Inl err
      | Inr intervals \<Rightarrow>
          (let sorted_intervals = sort_intervals intervals in
           case check_overlap sorted_intervals of
             Some err \<Rightarrow> Inl err
           | None \<Rightarrow> Inr sorted_intervals))"


section \<open>Extraction of the clips\<close>

text \<open>
  OpenCV's capture and writer objects are outside the source; they are modelled by what
  the interface of the specification (section 6) says of them. A capture on a video of
  \<open>n\<close> frames has a zero-based read position; \<^verbatim>\<open>read\<close> returns the frame at the
  position and advances it, and fails at any position outside the video.
  A writer that could not be opened ignores the frames written to it.
\<close>

record 'f video =
  video_frames :: "'f list"
  video_fps :: rat
  video_width :: int
  video_height :: int

record 'f capture =
  cap_frames :: "'f list"
  cap_pos :: int
  cap_released :: bool

definition cap_open :: "'f video \<Rightarrow> 'f capture" where
  "cap_open v = \<lparr> cap_frames = video_frames v, cap_pos = 0, cap_released = False \<rparr>"

text \<open>\<^verbatim>\<open>cap.set(cv2.CAP_PROP_POS_FRAMES, n)\<close>\<close>

definition cap_set_pos_frames :: "'f capture \<Rightarrow> int \<Rightarrow> 'f capture" where
  "cap_set_pos_frames cap n = cap\<lparr>cap_pos := n\<rparr>"

text \<open>\<^verbatim>\<open>ret, frame = cap.read()\<close>: \<open>None\<close> is \<^verbatim>\<open>ret == False\<close>.\<close>

definition cap_read :: "'f capture \<Rightarrow> 'f option \<times> 'f capture" where
  "cap_read cap =
     (if 0 \<le> cap_pos cap \<and> cap_pos cap < int (length (cap_frames cap))
      then (Some (cap_frames cap ! nat (cap_pos cap)), cap\<lparr>cap_pos := cap_pos cap + 1\<rparr>)
      else (None, cap))"

definition cap_release :: "'f capture \<Rightarrow> 'f capture" where
  "cap_release cap = cap\<lparr>cap_released := True\<rparr>"

record 'f writer =
  w_dir :: string
  w_name :: string
  w_fps :: rat
  w_size :: "int \<times> int"
  w_opened :: bool
  w_frames :: "'f list"
  w_released :: bool

definition writer_open :: "bool \<Rightarrow> string \<Rightarrow> string \<Rightarrow> rat \<Rightarrow> int \<times> int \<Rightarrow> 'f writer" where
  "writer_open opens dir name fps frame_size =
     \<lparr> w_dir = dir, w_name = name, w_fps = fps, w_size = frame_size,
       w_opened = opens, w_frames = [], w_released = False \<rparr>"

definition writer_write :: "'f writer \<Rightarrow> 'f \<Rightarrow> 'f writer" where
  "writer_write w fr = (if w_opened w then w\<lparr>w_frames := w_frames w @ [fr]\<rparr> else w)"

definition writer_release :: "'f writer \<Rightarrow> 'f writer" where
  "writer_release w = w\<lparr>w_released := True\<rparr>"

text \<open>
  The inner loop
  \<^verbatim>\<open>while current_frame <= exit_frame: ret, frame = cap.read(); if not ret: break;
  out_writer.write(frame); current_frame += 1\<close>.
\<close>

function copy_frames ::
  "'f capture \<Rightarrow> 'f writer \<Rightarrow> int \<Rightarrow> int \<Rightarrow> 'f capture \<times> 'f writer" where
  "copy_frames cap out_writer current_frame ex =
     (if current_frame \<le> ex then
        (case cap_read cap of
           (None, cap') \<Rightarrow> (cap', out_writer)
         | (Some fr, cap') \<Rightarrow>
             copy_frames cap' (writer_write out_writer fr) (current_frame + 1) ex)
      else (cap, out_writer))"
  by pat_completeness auto
termination
  by (relation "measure (\<lambda>(cap, w, cur, ex). nat (ex + 1 - cur))") auto

declare copy_frames.simps [simp del]

text \<open>
  The fields of the main window that \<^verbatim>\<open>clip_by_annotations\<close> reads: the stem, suffix
  and parent directory of \<^verbatim>\<open>self.output_file\<close>, \<^verbatim>\<open>self.output_folder\<close> (\<open>None\<close> or a
  folder), the state of the output-folder check box, and \<^verbatim>\<open>self.input_file.name\<close>.
\<close>

record window =
  output_stem :: string
  output_suffix :: string
  output_parent :: string
  output_folder :: "string option"
  output_folder_checked :: bool
  input_name :: string

definition output_name :: "window \<Rightarrow> string \<Rightarrow> string" where
  "output_name self name = output_stem self @ ''_'' @ name @ ''intruder'' @ output_suffix self"

definition out_dir :: "window \<Rightarrow> string" where
  "out_dir self =
     (case output_folder self of
        Some folder \<Rightarrow>
          (if folder \<noteq> [] \<and> output_folder_checked self then folder else output_parent self)
      | None \<Rightarrow> output_parent self)"

text \<open>
  One iteration of the loop over the sorted intervals. \<open>sink_opens\<close> says, for a
  directory and a file name, whether the writer on that path can be opened.
\<close>

definition extract_interval ::
  "window \<Rightarrow> (string \<Rightarrow> string \<Rightarrow> bool) \<Rightarrow> rat \<Rightarrow> int \<times> int \<Rightarrow> 'f capture \<Rightarrow> interval
     \<Rightarrow> 'f capture \<times> 'f writer" where
  "extract_interval self sink_opens fps frame_size cap iv =
     (let name = output_name self (intruder iv);
          dir = out_dir self;
          out_writer = writer_open (sink_opens dir name) dir name fps frame_size;
          cap1 = cap_set_pos_frames cap (enter_frame iv - 1);
          (cap2, w) = copy_frames cap1 out_writer (enter_frame iv) (exit_frame iv) in
      (cap2, writer_release w))"

fun extract_all ::
  "window \<Rightarrow> (string \<Rightarrow> string \<Rightarrow> bool) \<Rightarrow> rat \<Rightarrow> int \<times> int \<Rightarrow> 'f capture \<Rightarrow> interval list
     \<Rightarrow> 'f capture \<times> 'f writer list" where
  "extract_all self sink_opens fps frame_size cap [] = (cap, [])"
| "extract_all self sink_opens fps frame_size cap (iv # rest) =
     (let (cap1, w) = extract_interval self sink_opens fps frame_size cap iv;
          (cap2, ws) = extract_all self sink_opens fps frame_size cap1 rest in
      (cap2, w # ws))"

text \<open>
  \<^verbatim>\<open>clip_by_annotations\<close>. \<open>source\<close> is what opening \<^verbatim>\<open>video_path\<close> gives: \<open>None\<close> when
  \<^verbatim>\<open>cap.isOpened()\<close> is false. The result carries the returned pair
  \<^verbatim>\<open>(success, message)\<close>, the writers in the order they were released, and the final
  state of the capture when one was opened.
\<close>

record 'f clip_result =
  success :: bool
  message :: string
  clips :: "'f writer list"
  final_cap :: "'f capture option"

definition clip_by_annotations ::
  "window \<Rightarrow> (string \<Rightarrow> string \<Rightarrow> bool) \<Rightarrow> annotations \<Rightarrow> string \<Rightarrow> 'f video option
     \<Rightarrow> 'f clip_result" where
  "clip_by_annotations self sink_opens anns video_path source =
     (case validate anns of
        Inl err \<Rightarrow>
          \<lparr> success = False, message = error_message err, clips = [], final_cap = None \<rparr>
      | Inr intervals \<Rightarrow>
          (case source of
             None \<Rightarrow>
               \<lparr> success = False, message = error_message (SourceUnopenable video_path),
                 clips = [], final_cap = None \<rparr>
           | Some v \<Rightarrow>
               (let fps = effective_fps (video_fps v);
                    frame_size = (video_width v, video_height v);
                    (cap, ws) = extract_all self sink_opens fps frame_size (cap_open v) intervals in
                \<lparr> success = True,
                  message = ''Successfully clipped intruders for file '' @ input_name self @ ''.'',
                  clips = ws, final_cap = Some (cap_release cap) \<rparr>)))"


section \<open>Normalisation to AVI\<close>

text \<open>
  \<^verbatim>\<open>video_to_avi\<close> runs ffmpeg and then looks at the file it should have written. The
  exit status and the error output of the process (bytes), and the size of the file at
  \<^verbatim>\<open>avi_path\<close> afterwards (\<open>None\<close> when it does not exist), are the inputs.

  On a non-zero exit status the message is built from
  \<^verbatim>\<open>process.stderr.decode('utf-8')\<close>. The decoder is strict: on bytes that are not
  well-formed UTF-8 it raises \<^verbatim>\<open>UnicodeDecodeError\<close>, and the function returns nothing.
  A Python string is a list of code points here, bytes and code points being integers.
\<close>

type_synonym bytes = "int list"

type_synonym py_str = "int list"

datatype py_exception = UnicodeDecodeError

definition continuation :: "int \<Rightarrow> bool" where
  "continuation b = (0x80 \<le> b \<and> b \<le> 0xBF)"

text \<open>
  Strict UTF-8 decoding: the well-formed byte sequences of the Unicode standard (no
  overlong form, no surrogate, nothing above U+10FFFF); \<open>None\<close> is the raised error.
\<close>

fun utf8_decode :: "bytes \<Rightarrow> py_str option" where
  "utf8_decode [] = Some []"
| "utf8_decode (b0 # bs) =
     (if b0 < 0x80 then map_option ((#) b0) (utf8_decode bs)
      else if 0xC2 \<le> b0 \<and> b0 \<le> 0xDF then
        (case bs of
           b1 # rest \<Rightarrow>
             if continuation b1
             then map_option ((#) ((b0 - 0xC0) * 64 + (b1 - 0x80))) (utf8_decode rest)
             else None
         | _ \<Rightarrow> None)
      else if 0xE0 \<le> b0 \<and> b0 \<le> 0xEF then
        (case bs of
           b1 # b2 # rest \<Rightarrow>
             if continuation b1 \<and> continuation b2
                \<and> (b0 = 0xE0 \<longrightarrow> 0xA0 \<le> b1) \<and> (b0 = 0xED \<longrightarrow> b1 \<le> 0x9F)
             then map_option ((#) ((b0 - 0xE0) * 4096 + (b1 - 0x80) * 64 + (b2 - 0x80)))
                    (utf8_decode rest)
             else None
         | _ \<Rightarrow> None)
      else if 0xF0 \<le> b0 \<and> b0 \<le> 0xF4 then
        (case bs of
           b1 # b2 # b3 # rest \<Rightarrow>
             if continuation b1 \<and> continuation b2 \<and> continuation b3
                \<and> (b0 = 0xF0 \<longrightarrow> 0x90 \<le> b1) \<and> (b0 = 0xF4 \<longrightarrow> b1 \<le> 0x8F)
             then map_option
                    ((#) ((b0 - 0xF0) * 262144 + (b1 - 0x80) * 4096 + (b2 - 0x80) * 64
                          + (b3 - 0x80)))
                    (utf8_decode rest)
             else None
         | _ \<Rightarrow> None)
      else None)"

text \<open>The code points of a string of the model.\<close>

definition str_of :: "string \<Rightarrow> py_str" where
  "str_of s = map of_char s"

definition video_to_avi ::
  "string \<Rightarrow> string \<Rightarrow> int \<Rightarrow> bytes \<Rightarrow> nat option \<Rightarrow> py_exception + bool \<times> py_str" where
  "video_to_avi input_path avi_path returncode stderr avi_file =
     (if returncode \<noteq> 0 then
        (case utf8_decode stderr of
           None \<Rightarrow> Inl UnicodeDecodeError
         | Some decoded \<Rightarrow> Inr (False, str_of ''FFmpeg error: '' @ decoded))
      else if (case avi_file of None \<Rightarrow> True | Some st_size \<Rightarrow> st_size < 1000)
      then Inr (False, str_of (''Output AVI file '' @ avi_path @ '' seems empty or invalid.''))
      else Inr (True, str_of (''Converted '' @ input_path @ '' to temporary AVI: '' @ avi_path)))"


section \<open>Auxiliary notions for the statements\<close>

text \<open>
  The triples the loop builds from a store in which every entry has both marks.
\<close>

definition intervals_of :: "annotations \<Rightarrow> interval list" where
  "intervals_of anns = map (\<lambda>(name, d). (the (enter d), the (exit d), name)) anns"

text \<open>
  Two intervals that share no frame.
\<close>

definition disjoint_intervals :: "interval \<Rightarrow> interval \<Rightarrow> bool" where
  "disjoint_intervals a b \<longleftrightarrow> exit_frame a < enter_frame b \<or> exit_frame b < enter_frame a"

text \<open>
  The frames a run of the copy loop reads: from read position \<open>pos\<close>, at most
  \<open>ex + 1 - cur\<close> of them, none at a position before the video.
\<close>

definition frames_from :: "'f list \<Rightarrow> int \<Rightarrow> int \<Rightarrow> int \<Rightarrow> 'f list" where
  "frames_from fs pos cur ex =
     (if 0 \<le> pos then take (nat (ex + 1 - cur)) (drop (nat pos) fs) else [])"

text \<open>
  The writer one iteration of the loop over the intervals leaves behind, as a function of
  that interval, of whether its own sink opened, and of the frames of the source.
\<close>

definition expected_clip ::
  "window \<Rightarrow> (string \<Rightarrow> string \<Rightarrow> bool) \<Rightarrow> rat \<Rightarrow> int \<times> int \<Rightarrow> 'f list \<Rightarrow> interval \<Rightarrow> 'f writer" where
  "expected_clip self sink_opens fps frame_size fs iv =
     \<lparr> w_dir = out_dir self, w_name = output_name self (intruder iv), w_fps = fps,
       w_size = frame_size,
       w_opened = sink_opens (out_dir self) (output_name self (intruder iv)),
       w_frames =
         (if sink_opens (out_dir self) (output_name self (intruder iv))
          then frames_from fs (enter_frame iv - 1) (enter_frame iv) (exit_frame iv) else []),
       w_released = True \<rparr>"


section \<open>Example data\<close>

text \<open>
  Concrete data for the instances below: a window writing beside the output file, a video
  whose \<open>k\<close>-th frame is the number \<open>k\<close>, and a few annotation stores.
\<close>

definition example_window :: window where
  "example_window =
     \<lparr> output_stem = ''out'', output_suffix = ''.mp4'', output_parent = ''clips'',
       output_folder = None, output_folder_checked = False, input_name = ''in.seq'' \<rparr>"

definition example_video :: "nat \<Rightarrow> nat video" where
  "example_video n =
     \<lparr> video_frames = [1..<Suc n], video_fps = 25, video_width = 640, video_height = 480 \<rparr>"

definition two_intruders :: annotations where
  "two_intruders =
     [(''A'', \<lparr> enter = Some 1, exit = Some 2 \<rparr>), (''B'', \<lparr> enter = Some 4, exit = Some 5 \<rparr>)]"

definition sink_failure_run :: "nat clip_result" where
  "sink_failure_run =
     clip_by_annotations example_window (\<lambda>dir name. name \<noteq> ''out_Aintruder.mp4'')
       two_intruders ''in.avi'' (Some (example_video 6))"

definition all_sinks_run :: "nat clip_result" where
  "all_sinks_run =
     clip_by_annotations example_window (\<lambda>dir name. True)
       two_intruders ''in.avi'' (Some (example_video 6))"

definition intruder_x :: "int \<Rightarrow> int \<Rightarrow> annotations" where
  "intruder_x e x = [(''X'', \<lparr> enter = Some e, exit = Some x \<rparr>)]"

definition touching_intruders :: annotations where
  "touching_intruders =
     [(''A'', \<lparr> enter = Some 1, exit = Some 10 \<rparr>),
      (''B'', \<lparr> enter = Some 15, exit = Some 20 \<rparr>),
      (''C'', \<lparr> enter = Some 20, exit = Some 25 \<rparr>)]"

definition unordered_intruders :: annotations where
  "unordered_intruders =
     [(''B'', \<lparr> enter = Some 15, exit = Some 20 \<rparr>),
      (''A'', \<lparr> enter = Some 1, exit = Some 10 \<rparr>)]"

definition incomplete_then_inverted :: annotations where
  "incomplete_then_inverted =
     [(''A'', \<lparr> enter = Some 1, exit = None \<rparr>),
      (''Y'', \<lparr> enter = Some 30, exit = Some 10 \<rparr>)]"

definition two_inverted :: annotations where
  "two_inverted =
     [(''X'', \<lparr> enter = Some 5, exit = Some 1 \<rparr>),
      (''Y'', \<lparr> enter = Some 30, exit = Some 10 \<rparr>)]"

definition complete_then_inverted :: annotations where
  "complete_then_inverted =
     [(''A'', \<lparr> enter = Some 1, exit = Some 10 \<rparr>),
      (''Y'', \<lparr> enter = Some 30, exit = Some 10 \<rparr>)]"

definition tied_intruders :: annotations where
  "tied_intruders =
     [(''Q'', \<lparr> enter = Some 5, exit = Some 7 \<rparr>),
      (''P'', \<lparr> enter = Some 5, exit = Some 5 \<rparr>),
      (''A'', \<lparr> enter = Some 1, exit = Some 2 \<rparr>)]"


section \<open>Lemmas about the model\<close>

lemma collect_intervals_ok:
  assumes "\<forall>(name, d) \<in> set anns. \<exists>e x. enter d = Some e \<and> exit d = Some x \<and> e \<le> x"
  shows "collect_intervals anns acc = Inr (acc @ map (\<lambda>(name, d). (the (enter d), the (exit d), name)) anns)"
  using assms by (induction anns arbitrary: acc) (auto split: option.splits)

lemma check_overlap_first:
  "i + 1 < length s \<Longrightarrow> enter_frame (s ! (i + 1)) \<le> exit_frame (s ! i)
   \<Longrightarrow> \<forall>j<i. exit_frame (s ! j) < enter_frame (s ! (j + 1))
   \<Longrightarrow> check_overlap s = Some (Overlap (intruder (s ! i)) (intruder (s ! (i + 1))))"
proof (induction s arbitrary: i rule: check_overlap.induct)
  case (1 a b rest)
  show ?case
  proof (cases i)
    case 0
    with 1 show ?thesis by simp
  next
    case (Suc k)
    with 1(3,4) have no: "\<not> enter_frame b \<le> exit_frame a" by force
    have "check_overlap (b # rest) = Some (Overlap (intruder ((b # rest) ! k)) (intruder ((b # rest) ! (k + 1))))"
    proof (rule 1(1)[OF no])
      show "k + 1 < length (b # rest)" using 1(2) Suc by simp
      show "enter_frame ((b # rest) ! (k + 1)) \<le> exit_frame ((b # rest) ! k)" using 1(3) Suc by simp
      show "\<forall>j<k. exit_frame ((b # rest) ! j) < enter_frame ((b # rest) ! (j + 1))"
      proof (intro allI impI)
        fix j assume "j < k"
        then have "Suc j < i" using Suc by simp
        with 1(4) have "exit_frame ((a # b # rest) ! Suc j) < enter_frame ((a # b # rest) ! (Suc j + 1))" by blast
        then show "exit_frame ((b # rest) ! j) < enter_frame ((b # rest) ! (j + 1))" by simp
      qed
    qed
    with no Suc show ?thesis by simp
  qed
qed simp_all

lemma check_overlap_None_iff:
  "check_overlap s = None \<longleftrightarrow> (\<forall>j. j + 1 < length s \<longrightarrow> exit_frame (s ! j) < enter_frame (s ! (j + 1)))"
proof (induction s rule: check_overlap.induct)
  case (1 a b rest)
  show ?case
  proof (cases "enter_frame b \<le> exit_frame a")
    case True
    then show ?thesis by (auto intro: exI[of _ 0])
  next
    case False
    have "(\<forall>j. j + 1 < length (a # b # rest) \<longrightarrow> exit_frame ((a # b # rest) ! j) < enter_frame ((a # b # rest) ! (j + 1)))
      \<longleftrightarrow> (\<forall>j. j + 1 < length (b # rest) \<longrightarrow> exit_frame ((b # rest) ! j) < enter_frame ((b # rest) ! (j + 1)))"
      (is "?L \<longleftrightarrow> ?R")
    proof
      assume l: ?L
      show ?R
      proof (intro allI impI)
        fix j assume "j + 1 < length (b # rest)"
        then have "Suc j + 1 < length (a # b # rest)" by simp
        with l have "exit_frame ((a # b # rest) ! Suc j) < enter_frame ((a # b # rest) ! (Suc j + 1))" by blast
        then show "exit_frame ((b # rest) ! j) < enter_frame ((b # rest) ! (j + 1))" by simp
      qed
    next
      assume r: ?R
      show ?L
      proof (intro allI impI)
        fix j assume j: "j + 1 < length (a # b # rest)"
        show "exit_frame ((a # b # rest) ! j) < enter_frame ((a # b # rest) ! (j + 1))"
        proof (cases j)
          case 0 then show ?thesis using False by simp
        next
          case (Suc k)
          with j have "k + 1 < length (b # rest)" by simp
          with r have "exit_frame ((b # rest) ! k) < enter_frame ((b # rest) ! (k + 1))" by blast
          with Suc show ?thesis by simp
        qed
      qed
    qed
    with 1 False show ?thesis by simp
  qed
qed simp_all

lemma sorted_wrt_insort_key_sym:
  assumes sym: "\<And>a b. P a b \<Longrightarrow> P b a"
  shows "sorted_wrt P xs \<Longrightarrow> \<forall>y\<in>set xs. P x y \<Longrightarrow> sorted_wrt P (insort_key f x xs)"
proof (induction xs)
  case Nil
  then show ?case by simp
next
  case (Cons a xs)
  show ?case
  proof (cases "f x \<le> f a")
    case True
    with Cons.prems show ?thesis by simp
  next
    case False
    have ih: "sorted_wrt P (insort_key f x xs)"
      using Cons.IH Cons.prems by simp
    have "P x a" using Cons.prems(2) by simp
    then have "P a x" by (rule sym)
    moreover have "\<forall>y\<in>set xs. P a y" using Cons.prems(1) by simp
    ultimately have "\<forall>y\<in>set (insort_key f x xs). P a y"
      by (simp add: set_insort_key)
    with ih False show ?thesis by simp
  qed
qed

lemma sorted_wrt_sort_key_sym:
  assumes sym: "\<And>a b. P a b \<Longrightarrow> P b a"
  shows "sorted_wrt P xs \<Longrightarrow> sorted_wrt P (sort_key f xs)"
proof (induction xs)
  case Nil
  then show ?case by simp
next
  case (Cons a xs)
  have "sort_key f (a # xs) = insort_key f a (sort_key f xs)" by (simp add: sort_key_def)
  moreover have "sorted_wrt P (insort_key f a (sort_key f xs))"
  proof (rule sorted_wrt_insort_key_sym)
    show "\<And>a b. P a b \<Longrightarrow> P b a" by (rule sym)
    show "sorted_wrt P (sort_key f xs)" using Cons by simp
    show "\<forall>y\<in>set (sort_key f xs). P a y" using Cons.prems by simp
  qed
  ultimately show ?case by simp
qed

lemma adjacent_after_sort:
  assumes dis: "sorted_wrt disjoint_intervals ivs"
    and ni: "\<forall>iv\<in>set ivs. enter_frame iv \<le> exit_frame iv"
  shows "check_overlap (sort_intervals ivs) = None"
proof -
  let ?s = "sort_intervals ivs"
  have sd: "sorted_wrt disjoint_intervals ?s"
    unfolding sort_intervals_def
    by (rule sorted_wrt_sort_key_sym[OF _ dis]) (auto simp: disjoint_intervals_def)
  have so: "sorted (map enter_frame ?s)" by (simp add: sort_intervals_def)
  have st: "set ?s = set ivs" by (simp add: sort_intervals_def)
  have "\<forall>j. j + 1 < length ?s \<longrightarrow> exit_frame (?s ! j) < enter_frame (?s ! (j + 1))"
  proof (intro allI impI)
    fix j assume j: "j + 1 < length ?s"
    then have d: "disjoint_intervals (?s ! j) (?s ! (j + 1))"
      using sd by (simp add: sorted_wrt_iff_nth_less)
    have "map enter_frame ?s ! j \<le> map enter_frame ?s ! (j + 1)"
      using so j by (intro sorted_nth_mono) auto
    then have le: "enter_frame (?s ! j) \<le> enter_frame (?s ! (j + 1))" using j by simp
    have "?s ! (j + 1) \<in> set ivs" using j st nth_mem by blast
    with ni have "enter_frame (?s ! (j + 1)) \<le> exit_frame (?s ! (j + 1))" by blast
    with d le show "exit_frame (?s ! j) < enter_frame (?s ! (j + 1))"
      by (auto simp: disjoint_intervals_def)
  qed
  then show ?thesis by (simp add: check_overlap_None_iff)
qed

lemma copy_frames_result:
  "copy_frames cap w cur ex =
     (cap\<lparr>cap_pos := cap_pos cap + int (length (frames_from (cap_frames cap) (cap_pos cap) cur ex))\<rparr>,
      if w_opened w then w\<lparr>w_frames := w_frames w @ frames_from (cap_frames cap) (cap_pos cap) cur ex\<rparr>
      else w)"
proof (induction cap w cur ex rule: copy_frames.induct)
  case (1 cap w cur ex)
  show ?case
  proof (cases "cur \<le> ex")
    case False
    then have "frames_from (cap_frames cap) (cap_pos cap) cur ex = []"
      by (simp add: frames_from_def)
    with False show ?thesis by (subst copy_frames.simps) simp
  next
    case True
    show ?thesis
    proof (cases "0 \<le> cap_pos cap \<and> cap_pos cap < int (length (cap_frames cap))")
      case False
      then have "frames_from (cap_frames cap) (cap_pos cap) cur ex = []"
        by (auto simp: frames_from_def)
      moreover have "cap_read cap = (None, cap)" using False by (simp add: cap_read_def)
      ultimately show ?thesis using True by (subst copy_frames.simps) simp
    next
      case inb: True
      let ?fr = "cap_frames cap ! nat (cap_pos cap)"
      let ?cap' = "cap\<lparr>cap_pos := cap_pos cap + 1\<rparr>"
      have rd: "cap_read cap = (Some ?fr, ?cap')" using inb by (simp add: cap_read_def)
      have n: "nat (ex + 1 - cur) = Suc (nat (ex + 1 - (cur + 1)))" using True by linarith
      have d: "drop (nat (cap_pos cap)) (cap_frames cap) = ?fr # drop (nat (cap_pos cap + 1)) (cap_frames cap)"
      proof -
        have "nat (cap_pos cap) < length (cap_frames cap)" using inb by linarith
        then have "drop (nat (cap_pos cap)) (cap_frames cap) = ?fr # drop (Suc (nat (cap_pos cap))) (cap_frames cap)"
          by (simp add: Cons_nth_drop_Suc)
        moreover have "Suc (nat (cap_pos cap)) = nat (cap_pos cap + 1)" using inb by linarith
        ultimately show ?thesis by simp
      qed
      have ff: "frames_from (cap_frames cap) (cap_pos cap) cur ex
                  = ?fr # frames_from (cap_frames ?cap') (cap_pos ?cap') (cur + 1) ex"
        using inb by (simp add: frames_from_def d n del: nat_add_distrib)
      have step: "copy_frames cap w cur ex = copy_frames ?cap' (writer_write w ?fr) (cur + 1) ex"
        using True rd by (subst copy_frames.simps) simp
      have ih: "copy_frames ?cap' (writer_write w ?fr) (cur + 1) ex =
          (?cap'\<lparr>cap_pos := cap_pos ?cap' + int (length (frames_from (cap_frames ?cap') (cap_pos ?cap') (cur + 1) ex))\<rparr>,
           if w_opened (writer_write w ?fr)
           then (writer_write w ?fr)\<lparr>w_frames := w_frames (writer_write w ?fr) @ frames_from (cap_frames ?cap') (cap_pos ?cap') (cur + 1) ex\<rparr>
           else writer_write w ?fr)"
        by (rule 1[OF True rd[symmetric] refl])
      show ?thesis
        unfolding step ih ff by (simp add: writer_write_def)
    qed
  qed
qed

lemma extract_interval_result:
  "extract_interval self sink_opens fps frame_size cap iv =
     (cap\<lparr>cap_pos := enter_frame iv - 1
          + int (length (frames_from (cap_frames cap) (enter_frame iv - 1) (enter_frame iv) (exit_frame iv)))\<rparr>,
      expected_clip self sink_opens fps frame_size (cap_frames cap) iv)"
  by (simp add: extract_interval_def Let_def copy_frames_result cap_set_pos_frames_def
      writer_open_def writer_release_def expected_clip_def)

lemma extract_all_result:
  "snd (extract_all self sink_opens fps frame_size cap ivs)
     = map (expected_clip self sink_opens fps frame_size (cap_frames cap)) ivs
   \<and> cap_frames (fst (extract_all self sink_opens fps frame_size cap ivs)) = cap_frames cap
   \<and> cap_released (fst (extract_all self sink_opens fps frame_size cap ivs)) = cap_released cap"
proof (induction ivs arbitrary: cap)
  case Nil
  show ?case by simp
next
  case (Cons iv ivs)
  let ?cap1 = "cap\<lparr>cap_pos := enter_frame iv - 1
          + int (length (frames_from (cap_frames cap) (enter_frame iv - 1) (enter_frame iv) (exit_frame iv)))\<rparr>"
  have "cap_frames ?cap1 = cap_frames cap" "cap_released ?cap1 = cap_released cap" by simp_all
  with Cons[of ?cap1] show ?case
    by (simp add: extract_interval_result split_beta Let_def)
qed

lemma clip_by_annotations_valid:
  assumes "validate anns = Inr ivs"
  shows "success (clip_by_annotations self sink_opens anns video_path (Some v)) = True"
    and "message (clip_by_annotations self sink_opens anns video_path (Some v))
          = ''Successfully clipped intruders for file '' @ input_name self @ ''.''"
    and "clips (clip_by_annotations self sink_opens anns video_path (Some v))
          = map (expected_clip self sink_opens (effective_fps (video_fps v))
                   (video_width v, video_height v) (video_frames v)) ivs"
    and "\<exists>c. final_cap (clip_by_annotations self sink_opens anns video_path (Some v)) = Some c
           \<and> cap_released c"
proof -
  let ?r = "extract_all self sink_opens (effective_fps (video_fps v))
              (video_width v, video_height v) (cap_open v) ivs"
  have ea: "snd ?r = map (expected_clip self sink_opens (effective_fps (video_fps v))
                   (video_width v, video_height v) (video_frames v)) ivs"
    using extract_all_result[of self sink_opens "effective_fps (video_fps v)"
        "(video_width v, video_height v)" "cap_open v" ivs]
    by (simp add: cap_open_def)
  have r: "clip_by_annotations self sink_opens anns video_path (Some v) =
     \<lparr> success = True,
       message = ''Successfully clipped intruders for file '' @ input_name self @ ''.'',
       clips = snd ?r, final_cap = Some (cap_release (fst ?r)) \<rparr>"
    using assms by (simp add: clip_by_annotations_def Let_def split_beta)
  show "success (clip_by_annotations self sink_opens anns video_path (Some v)) = True"
    by (simp add: r)
  show "message (clip_by_annotations self sink_opens anns video_path (Some v))
          = ''Successfully clipped intruders for file '' @ input_name self @ ''.''"
    by (simp add: r)
  show "clips (clip_by_annotations self sink_opens anns video_path (Some v))
          = map (expected_clip self sink_opens (effective_fps (video_fps v))
                   (video_width v, video_height v) (video_frames v)) ivs"
    by (simp add: r ea)
  show "\<exists>c. final_cap (clip_by_annotations self sink_opens anns video_path (Some v)) = Some c
           \<and> cap_released c"
    by (simp add: r cap_release_def)
qed

lemma frames_in_range:
  assumes "1 \<le> e" "x \<le> int (length fs)"
  shows "frames_from fs (e - 1) e x = map (\<lambda>k. fs ! nat (k - 1)) [e..x]"
proof (rule nth_equalityI)
  show len: "length (frames_from fs (e - 1) e x) = length (map (\<lambda>k. fs ! nat (k - 1)) [e..x])"
    using assms by (auto simp: frames_from_def)
  fix i assume i: "i < length (frames_from fs (e - 1) e x)"
  then have il: "i < length [e..x]" using len by simp
  then have ib: "e + int i \<le> x" by simp
  have "frames_from fs (e - 1) e x ! i = fs ! (nat (e - 1) + i)"
    using assms i by (simp add: frames_from_def)
  moreover have "map (\<lambda>k. fs ! nat (k - 1)) [e..x] ! i = fs ! nat ([e..x] ! i - 1)"
    using il by (rule nth_map)
  moreover have "[e..x] ! i = e + int i" using ib by (rule nth_upto)
  moreover have "nat (e + int i - 1) = nat (e - 1) + i" using assms by linarith
  ultimately show "frames_from fs (e - 1) e x ! i = map (\<lambda>k. fs ! nat (k - 1)) [e..x] ! i"
    by simp
qed

lemma frames_truncated:
  assumes "1 \<le> e" "int (length fs) \<le> x"
  shows "frames_from fs (e - 1) e x = drop (nat (e - 1)) fs"
  using assms by (simp add: frames_from_def)

lemma bit_length_upper: "n < 2 ^ bit_length n"
proof (induction n rule: bit_length.induct)
  case (1 n)
  show ?case
  proof (cases "n \<le> 0")
    case True
    then have "bit_length n = 0" by (subst bit_length.simps) simp
    with True show ?thesis by simp
  next
    case False
    then have bl: "bit_length n = Suc (bit_length (n div 2))" by (subst bit_length.simps) simp
    have "n div 2 < 2 ^ bit_length (n div 2)" using 1 False by simp
    then have "n div 2 + 1 \<le> 2 ^ bit_length (n div 2)" by simp
    then have "2 * (n div 2 + 1) \<le> 2 * 2 ^ bit_length (n div 2)" by simp
    moreover have "n < 2 * (n div 2 + 1)" by presburger
    ultimately show ?thesis unfolding bl by simp
  qed
qed

lemma bit_length_lower: "0 < n \<Longrightarrow> 2 ^ (bit_length n - 1) \<le> n"
proof (induction n rule: bit_length.induct)
  case (1 n)
  have bl: "bit_length n = Suc (bit_length (n div 2))" using 1(2) by (subst bit_length.simps) simp
  show ?case
  proof (cases "0 < n div 2")
    case False
    then have "n div 2 \<le> 0" by simp
    then have "bit_length (n div 2) = 0" by (subst bit_length.simps) simp
    with bl 1(2) show ?thesis by simp
  next
    case True
    then have ih: "2 ^ (bit_length (n div 2) - 1) \<le> n div 2" using 1 by simp
    have "0 < bit_length (n div 2)" using True by (subst bit_length.simps) simp
    then have "bit_length n - 1 = Suc (bit_length (n div 2) - 1)" using bl by simp
    then have "(2::int) ^ (bit_length n - 1) = 2 * 2 ^ (bit_length (n div 2) - 1)" by simp
    also have "\<dots> \<le> 2 * (n div 2)" using ih by simp
    also have "\<dots> \<le> n" by presburger
    finally show ?thesis .
  qed
qed

lemma bit_length_pos: "0 < n \<Longrightarrow> 0 < bit_length n"
  by (subst bit_length.simps) simp

lemma pow2_pos: "0 < pow2 e"
  by (simp add: pow2_def)

lemma pow2_powi: "pow2 e = 2 powi e"
  by (simp add: pow2_def power_int_def field_simps)

lemma pow2_diff: "pow2 (e - d) = pow2 e / pow2 d"
  by (simp add: pow2_powi power_int_diff)

lemma pow2_nat: "pow2 (int n) = 2 ^ n"
  by (simp add: pow2_def)

lemma pow2_neg_nat: "pow2 (- int n) = 1 / 2 ^ n"
  by (simp add: pow2_powi power_int_minus field_simps)

lemma binade_lower:
  assumes "0 < q"
  shows "pow2 (binade q) \<le> q"
proof (cases "1 \<le> q")
  case True
  let ?n = "\<lfloor>q\<rfloor>"
  have n: "0 < ?n" using True by simp
  have b: "binade q = int (bit_length ?n - 1)"
    using True bit_length_pos[OF n] by (simp add: binade_def)
  have "(2::int) ^ (bit_length ?n - 1) \<le> ?n" by (rule bit_length_lower[OF n])
  then have "(of_int ((2::int) ^ (bit_length ?n - 1)) :: rat) \<le> of_int ?n"
    by (simp only: of_int_le_iff)
  also have "\<dots> \<le> q" by simp
  finally show ?thesis unfolding b pow2_nat by simp
next
  case False
  let ?m = "\<lceil>1 / q\<rceil>"
  let ?k = "bit_length (?m - 1)"
  have b: "binade q = - int ?k" using False by (simp add: binade_def)
  have "?m - 1 < 2 ^ ?k" by (rule bit_length_upper)
  then have "?m \<le> 2 ^ ?k" by simp
  then have "(of_int ?m :: rat) \<le> of_int (2 ^ ?k)" by (simp only: of_int_le_iff)
  moreover have "1 / q \<le> of_int ?m" by (rule le_of_int_ceiling)
  moreover have "(of_int (2 ^ ?k) :: rat) = 2 ^ ?k" by simp
  ultimately have "1 / q \<le> 2 ^ ?k" by linarith
  then have "1 \<le> 2 ^ ?k * q" using assms by (simp add: pos_divide_le_eq)
  then have "1 / 2 ^ ?k \<le> q" by (simp add: pos_divide_le_eq mult.commute)
  moreover have "pow2 (- int ?k) = 1 / 2 ^ ?k" by (rule pow2_neg_nat)
  ultimately show ?thesis unfolding b by simp
qed

lemma binade_upper:
  assumes "0 < q"
  shows "q < pow2 (binade q + 1)"
proof (cases "1 \<le> q")
  case True
  let ?n = "\<lfloor>q\<rfloor>"
  have n: "0 < ?n" using True by simp
  have b: "binade q + 1 = int (bit_length ?n)"
    using True by (simp add: binade_def)
  have "?n < 2 ^ bit_length ?n" by (rule bit_length_upper)
  then have "?n + 1 \<le> 2 ^ bit_length ?n" by simp
  then have "(of_int (?n + 1) :: rat) \<le> of_int (2 ^ bit_length ?n)" by (simp only: of_int_le_iff)
  moreover have "q < of_int (?n + 1)" using floor_correct[of q] by blast
  moreover have "(of_int (2 ^ bit_length ?n) :: rat) = 2 ^ bit_length ?n" by simp
  ultimately have "q < 2 ^ bit_length ?n" by linarith
  then show ?thesis unfolding b pow2_nat .
next
  case False
  let ?m = "\<lceil>1 / q\<rceil>"
  let ?k = "bit_length (?m - 1)"
  have r: "1 < 1 / q" using False assms by simp
  then have "1 < ?m" by (simp add: less_ceiling_iff)
  then have m: "0 < ?m - 1" by simp
  have kpos: "0 < ?k" by (rule bit_length_pos[OF m])
  have b: "binade q + 1 = - int (?k - 1)" using False kpos by (simp add: binade_def)
  have "2 ^ (?k - 1) \<le> ?m - 1" by (rule bit_length_lower[OF m])
  then have "(of_int (2 ^ (?k - 1)) :: rat) \<le> of_int (?m - 1)" by (simp only: of_int_le_iff)
  moreover have "of_int (?m - 1) < 1 / q" using ceiling_correct[of "1 / q"] by simp
  moreover have "(of_int (2 ^ (?k - 1)) :: rat) = 2 ^ (?k - 1)" by simp
  ultimately have "2 ^ (?k - 1) < 1 / q" by linarith
  then have "2 ^ (?k - 1) * q < 1" using assms by (simp add: pos_less_divide_eq)
  then have "q < 1 / 2 ^ (?k - 1)" by (simp add: pos_less_divide_eq mult.commute)
  moreover have "pow2 (- int (?k - 1)) = 1 / 2 ^ (?k - 1)" by (rule pow2_neg_nat)
  ultimately show ?thesis unfolding b by simp
qed

lemma py_round_upper: "of_int (py_round q) \<le> q + 1 / 2"
proof -
  have f1: "of_int \<lfloor>q\<rfloor> \<le> q" by simp
  show ?thesis
  proof (cases "q - of_int \<lfloor>q\<rfloor> < 1 / 2")
    case True
    then have "of_int (py_round q) = (of_int \<lfloor>q\<rfloor> :: rat)" by (simp add: py_round_def Let_def)
    with f1 show ?thesis by linarith
  next
    case False
    then have ge: "of_int \<lfloor>q\<rfloor> + 1 / 2 \<le> q" by simp
    have "py_round q = \<lfloor>q\<rfloor> \<or> py_round q = \<lfloor>q\<rfloor> + 1"
      by (simp add: py_round_def Let_def)
    then show ?thesis
    proof
      assume "py_round q = \<lfloor>q\<rfloor>"
      then have "of_int (py_round q) = (of_int \<lfloor>q\<rfloor> :: rat)" by simp
      with f1 show ?thesis by linarith
    next
      assume "py_round q = \<lfloor>q\<rfloor> + 1"
      then have "of_int (py_round q) = of_int \<lfloor>q\<rfloor> + (1::rat)" by simp
      with ge show ?thesis by linarith
    qed
  qed
qed

lemma py_round_nonneg: "0 \<le> q \<Longrightarrow> 0 \<le> py_round q"
  by (auto simp: py_round_def Let_def)

lemma round_double_nonneg:
  assumes "0 \<le> q"
  shows "0 \<le> round_double q"
proof (cases "q = 0")
  case True
  then show ?thesis by (simp add: round_double_def)
next
  case False
  with assms have q: "0 < q" by simp
  let ?u = "pow2 (binade q - 52)"
  have u: "0 < ?u" by (rule pow2_pos)
  have "0 \<le> q / ?u" using q u by simp
  then have "0 \<le> py_round (q / ?u)" by (rule py_round_nonneg)
  then have "(0::rat) \<le> of_int (py_round (q / ?u)) * ?u" using u by simp
  then show ?thesis using q by (simp add: round_double_def)
qed

lemma round_double_upper:
  assumes "0 \<le> q"
  shows "round_double q \<le> q * (1 + 1 / 2 ^ 53)"
proof (cases "q = 0")
  case True
  then show ?thesis by (simp add: round_double_def)
next
  case False
  with assms have q: "0 < q" by simp
  let ?u = "pow2 (binade q - 52)"
  have u: "0 < ?u" by (rule pow2_pos)
  have ue: "?u = pow2 (binade q) / 2 ^ 52"
    using pow2_diff[of "binade q" 52] pow2_nat[of 52] by simp
  have "?u \<le> q / 2 ^ 52" unfolding ue using binade_lower[OF q] by (simp add: divide_right_mono)
  then have uh: "?u * (1 / 2) \<le> q * (1 / 2 ^ 53)" by simp
  have "of_int (py_round (q / ?u)) \<le> q / ?u + 1 / 2" by (rule py_round_upper)
  then have "of_int (py_round (q / ?u)) * ?u \<le> (q / ?u + 1 / 2) * ?u"
    using u by (simp only: mult_le_cancel_right_pos)
  also have "\<dots> = q + ?u * (1 / 2)" using u by (simp add: field_simps)
  also have "\<dots> \<le> q + q * (1 / 2 ^ 53)" using uh by simp
  also have "\<dots> = q * (1 + 1 / 2 ^ 53)" by (simp add: field_simps)
  finally have "of_int (py_round (q / ?u)) * ?u \<le> q * (1 + 1 / 2 ^ 53)" .
  then show ?thesis using q by (simp add: round_double_def)
qed

lemma ms_to_frame_ge_1: "1 \<le> ms_to_frame position fps"
  by (simp add: ms_to_frame_def Let_def)

lemma ms_to_frame_zero: "ms_to_frame 0 fps = 1"
  by (simp add: ms_to_frame_def py_int_def round_double_def)

lemma ms_to_frame_upper:
  assumes "0 \<le> ms" and "0 < fps"
  shows "0 \<le> round_double (round_double (round_double (of_int ms) / 1000) * fps)"
    and "round_double (round_double (round_double (of_int ms) / 1000) * fps)
           \<le> of_int ms / 1000 * fps * (1 + 1 / 2 ^ 53) ^ 3"
proof -
  let ?K = "(1 + 1 / 2 ^ 53 :: rat)"
  let ?c = "round_double (of_int ms)"
  let ?a = "round_double (?c / 1000)"
  let ?b = "round_double (?a * fps)"
  have K: "0 < ?K" by simp
  have P: "(0::rat) \<le> of_int ms" using assms(1) by simp
  have c0: "0 \<le> ?c" by (rule round_double_nonneg[OF P])
  have c1: "?c \<le> of_int ms * ?K" by (rule round_double_upper[OF P])
  have c10: "0 \<le> ?c / 1000" using c0 by simp
  have a0: "0 \<le> ?a" by (rule round_double_nonneg[OF c10])
  have "?a \<le> ?c / 1000 * ?K" by (rule round_double_upper[OF c10])
  also have "\<dots> \<le> of_int ms * ?K / 1000 * ?K"
    using c1 K by (intro mult_right_mono divide_right_mono) simp_all
  finally have a1: "?a \<le> of_int ms * ?K / 1000 * ?K" .
  have af0: "0 \<le> ?a * fps" using a0 assms(2) by simp
  show "0 \<le> ?b" by (rule round_double_nonneg[OF af0])
  have "?b \<le> ?a * fps * ?K" by (rule round_double_upper[OF af0])
  also have "\<dots> \<le> of_int ms * ?K / 1000 * ?K * fps * ?K"
    using a1 K assms(2) by (intro mult_right_mono) simp_all
  also have "\<dots> = of_int ms / 1000 * fps * ?K ^ 3" by (simp add: power3_eq_cube)
  finally show "?b \<le> of_int ms / 1000 * fps * ?K ^ 3" .
qed

lemma ms_to_frame_less:
  assumes "0 \<le> ms" and "0 < fps" and "2 \<le> n" and "n \<le> 2 ^ 50"
    and "of_int ms / 1000 * fps \<le> of_int n - 1 / 2"
  shows "ms_to_frame ms fps < n"
proof -
  let ?K = "(1 + 1 / 2 ^ 53 :: rat)"
  let ?b = "round_double (round_double (round_double (of_int ms) / 1000) * fps)"
  let ?y = "(of_int ms / 1000 * fps :: rat)"
  let ?F = "(of_int n :: rat)"
  note ub = ms_to_frame_upper[OF assms(1,2)]
  have y0: "0 \<le> ?y" using assms(1,2) by simp
  have K3: "?K ^ 3 \<le> 1 + 4 / 2 ^ 53" by (simp add: power3_eq_cube)
  have Fle: "?F \<le> 2 ^ 50" using assms(4) by (metis of_int_le_iff of_int_numeral of_int_power)
  have "?b \<le> ?y * ?K ^ 3" by (rule ub(2))
  also have "\<dots> \<le> ?y * (1 + 4 / 2 ^ 53)" using K3 y0 by (rule mult_left_mono)
  also have "\<dots> \<le> (?F - 1 / 2) * (1 + 4 / 2 ^ 53)"
    using assms(5) by (intro mult_right_mono) simp_all
  also have "\<dots> = ?F - 1 / 2 + (?F - 1 / 2) * (4 / 2 ^ 53)" by (simp add: field_simps)
  also have "\<dots> < ?F - 1 / 2 + 2 ^ 50 * (4 / 2 ^ 53)" using Fle by simp
  also have "\<dots> = ?F" by simp
  finally have bl: "?b < ?F" .
  then have "\<lfloor>?b\<rfloor> < n" by (simp add: floor_less_iff)
  with ub(1) assms(3) show ?thesis by (simp add: ms_to_frame_def py_int_def Let_def)
qed

lemma round_trip_below:
  assumes "0 < fps" and "fps \<le> 1000" and "2 \<le> frame" and "frame \<le> 2 ^ 50"
  shows "ms_to_frame (frame_to_ms frame fps) fps < frame"
proof (rule ms_to_frame_less)
  let ?x = "of_int (frame - 1) * 1000 / fps"
  have x0: "0 \<le> ?x" using assms by simp
  show "0 \<le> frame_to_ms frame fps" unfolding frame_to_ms_def by (rule py_round_nonneg[OF x0])
  show "0 < fps" by fact
  show "2 \<le> frame" by fact
  show "frame \<le> 2 ^ 50" by fact
  have "of_int (frame_to_ms frame fps) \<le> ?x + 1 / 2"
    unfolding frame_to_ms_def by (rule py_round_upper)
  then have "of_int (frame_to_ms frame fps) / 1000 * fps \<le> (?x + 1 / 2) / 1000 * fps"
    using assms(1) by (simp add: divide_right_mono mult_right_mono)
  also have "(?x + 1 / 2) / 1000 * fps = of_int (frame - 1) + fps / 2000"
    using assms(1) by (simp add: field_simps)
  also have "\<dots> \<le> of_int (frame - 1) + 1 / 2" using assms(2) by simp
  also have "\<dots> = of_int frame - 1 / 2" by simp
  finally show "of_int (frame_to_ms frame fps) / 1000 * fps \<le> of_int frame - 1 / 2" .
qed

lemma round_trip_first_frame: "0 < fps \<Longrightarrow> ms_to_frame (frame_to_ms 1 fps) fps = 1"
  by (simp add: frame_to_ms_def py_round_def ms_to_frame_zero)

lemma ms_to_frame_rounds_as_double: "ms_to_frame 1160 25 = 28 \<and> ms_to_frame 280 25 = 7"
  by code_simp

lemma collect_intervals_set:
  "collect_intervals anns acc = Inr ivs \<Longrightarrow> \<forall>iv\<in>set acc. enter_frame iv \<le> exit_frame iv
   \<Longrightarrow> \<forall>iv\<in>set ivs. enter_frame iv \<le> exit_frame iv"
proof (induction anns arbitrary: acc)
  case Nil
  then show ?case by simp
next
  case (Cons p rest)
  obtain name d where p: "p = (name, d)" by (cases p)
  from Cons.prems(1) obtain e x where ex: "enter d = Some e" "exit d = Some x" "\<not> x < e"
    and rec: "collect_intervals rest (acc @ [(e, x, name)]) = Inr ivs"
    unfolding p by (auto split: option.splits if_splits)
  have "\<forall>iv\<in>set (acc @ [(e, x, name)]). enter_frame iv \<le> exit_frame iv"
    using Cons.prems(2) ex(3) by (auto simp: enter_frame_def exit_frame_def)
  with Cons.IH[OF rec] show ?case by blast
qed

lemma validate_Inr:
  assumes "validate anns = Inr ivs"
  shows "\<exists>cs. collect_intervals anns [] = Inr cs \<and> ivs = sort_intervals cs
           \<and> check_overlap ivs = None"
  using assms by (auto simp: validate_def Let_def split: sum.splits option.splits)

lemma validate_noninverted:
  assumes "validate anns = Inr ivs"
  shows "\<forall>iv\<in>set ivs. enter_frame iv \<le> exit_frame iv"
proof -
  from validate_Inr[OF assms] obtain cs where
    cs: "collect_intervals anns [] = Inr cs" "ivs = sort_intervals cs" by blast
  have "\<forall>iv\<in>set cs. enter_frame iv \<le> exit_frame iv"
    using collect_intervals_set[OF cs(1)] by simp
  then show ?thesis using cs(2) by (simp add: sort_intervals_def)
qed

lemma collect_intervals_complete:
  assumes "\<forall>(name, d) \<in> set anns. \<exists>e x. enter d = Some e \<and> exit d = Some x \<and> e \<le> x"
  shows "collect_intervals anns [] = Inr (intervals_of anns)"
  using collect_intervals_ok[OF assms, of "[]"] by (simp add: intervals_of_def)

lemma intervals_of_noninverted:
  assumes "\<forall>(name, d) \<in> set anns. \<exists>e x. enter d = Some e \<and> exit d = Some x \<and> e \<le> x"
  shows "\<forall>iv\<in>set (intervals_of anns). enter_frame iv \<le> exit_frame iv"
  using assms by (auto simp: intervals_of_def enter_frame_def exit_frame_def)

lemma video_to_avi_returns:
  "(video_to_avi input_path avi_path returncode stderr avi_file = Inl UnicodeDecodeError
      \<longleftrightarrow> returncode \<noteq> 0 \<and> utf8_decode stderr = None)
   \<and> ((\<exists>m. video_to_avi input_path avi_path returncode stderr avi_file = Inr (True, m))
      \<longleftrightarrow> returncode = 0 \<and> (\<exists>st_size. avi_file = Some st_size \<and> 1000 \<le> st_size))"
  by (auto simp: video_to_avi_def split: option.splits)

lemma validate_two_intruders: "validate two_intruders = Inr [(1, 2, ''A''), (4, 5, ''B'')]"
  by (simp add: two_intruders_def validate_def sort_intervals_def enter_frame_def
      exit_frame_def intruder_def)

lemma validate_intruder_x: "e \<le> x \<Longrightarrow> validate (intruder_x e x) = Inr [(e, x, ''X'')]"
  by (simp add: intruder_x_def validate_def sort_intervals_def)

lemma sort_touching:
  "sort_intervals (intervals_of touching_intruders) = [(1, 10, ''A''), (15, 20, ''B''), (20, 25, ''C'')]"
  by (simp add: touching_intruders_def intervals_of_def sort_intervals_def enter_frame_def)

lemma validate_tied: "validate tied_intruders = Inl (Overlap ''Q'' ''P'')"
  by (simp add: tied_intruders_def validate_def sort_intervals_def enter_frame_def
      exit_frame_def intruder_def)

lemma sort_tied:
  "sort_intervals (intervals_of tied_intruders) = [(1, 2, ''A''), (5, 7, ''Q''), (5, 5, ''P'')]"
  by (simp add: tied_intruders_def intervals_of_def sort_intervals_def enter_frame_def)


section \<open>The claims\<close>

text \<open>
  Claim C1. For an interval that passed validation, starts at frame 1 or later, ends
  within the frames the source has, and whose sink opened, the clip named after its
  intruder holds exactly the frames numbered \<open>enter_frame\<close> to \<open>exit_frame\<close>: frame number
  \<open>k\<close> is the frame at zero-based offset \<open>k - 1\<close>, so the first one written is the frame at
  offset \<open>enter_frame - 1\<close>, where the capture was positioned, and there are
  \<open>exit_frame - enter_frame + 1\<close> of them.
\<close>

theorem clip_exact_frames:
  assumes "validate anns = Inr ivs" and "i < length ivs"
    and "1 \<le> enter_frame (ivs ! i)"
    and "exit_frame (ivs ! i) \<le> int (length (video_frames v))"
    and "sink_opens (out_dir self) (output_name self (intruder (ivs ! i)))"
  shows "w_name (clips (clip_by_annotations self sink_opens anns video_path (Some v)) ! i)
           = output_name self (intruder (ivs ! i))
       \<and> w_frames (clips (clip_by_annotations self sink_opens anns video_path (Some v)) ! i)
           = map (\<lambda>k. video_frames v ! nat (k - 1)) [enter_frame (ivs ! i)..exit_frame (ivs ! i)]
       \<and> int (length (w_frames (clips (clip_by_annotations self sink_opens anns video_path (Some v)) ! i)))
           = exit_frame (ivs ! i) - enter_frame (ivs ! i) + 1"
proof -
  let ?r = "clip_by_annotations self sink_opens anns video_path (Some v)"
  let ?iv = "ivs ! i"
  have c: "clips ?r ! i = expected_clip self sink_opens (effective_fps (video_fps v))
                   (video_width v, video_height v) (video_frames v) ?iv"
    using clip_by_annotations_valid(3)[OF assms(1), of self sink_opens video_path v] assms(2)
    by simp
  have le: "enter_frame ?iv \<le> exit_frame ?iv"
    using validate_noninverted[OF assms(1)] assms(2) by simp
  have f: "w_frames (clips ?r ! i)
             = map (\<lambda>k. video_frames v ! nat (k - 1)) [enter_frame ?iv..exit_frame ?iv]"
    unfolding c using assms(5) frames_in_range[OF assms(3,4)] by (simp add: expected_clip_def)
  have n: "w_name (clips ?r ! i) = output_name self (intruder ?iv)"
    unfolding c by (simp add: expected_clip_def)
  have l: "int (length (w_frames (clips ?r ! i))) = exit_frame ?iv - enter_frame ?iv + 1"
    unfolding f using le by simp
  from n f l show ?thesis by blast
qed

text \<open>
  The example of the specification: a source of 100 frames and the interval (10, 30, X)
  give a clip of 21 frames.
\<close>

theorem clip_exact_frames_witness:
  "validate (intruder_x 10 30) = Inr [(10, 30, ''X'')]
   \<and> w_name (clips (clip_by_annotations example_window (\<lambda>dir name. True) (intruder_x 10 30)
        ''in.avi'' (Some (example_video 100))) ! 0) = ''out_Xintruder.mp4''
   \<and> int (length (w_frames (clips (clip_by_annotations example_window (\<lambda>dir name. True)
        (intruder_x 10 30) ''in.avi'' (Some (example_video 100))) ! 0))) = 21"
proof -
  have v: "validate (intruder_x 10 30) = Inr [(10, 30, ''X'')]"
    by (rule validate_intruder_x) simp
  have "w_name (clips (clip_by_annotations example_window (\<lambda>dir name. True) (intruder_x 10 30)
        ''in.avi'' (Some (example_video 100))) ! 0)
          = output_name example_window (intruder ([(10, 30, ''X'')] ! 0))
     \<and> w_frames (clips (clip_by_annotations example_window (\<lambda>dir name. True) (intruder_x 10 30)
        ''in.avi'' (Some (example_video 100))) ! 0)
          = map (\<lambda>k. video_frames (example_video 100) ! nat (k - 1))
              [enter_frame ([(10, 30, ''X'')] ! 0)..exit_frame ([(10, 30, ''X'')] ! 0)]
     \<and> int (length (w_frames (clips (clip_by_annotations example_window (\<lambda>dir name. True)
        (intruder_x 10 30) ''in.avi'' (Some (example_video 100))) ! 0)))
          = exit_frame ([(10, 30, ''X'')] ! 0) - enter_frame ([(10, 30, ''X'')] ! 0) + 1"
    by (rule clip_exact_frames[OF v])
       (simp_all add: enter_frame_def exit_frame_def example_video_def)
  then show ?thesis using v
    by (simp add: enter_frame_def exit_frame_def intruder_def output_name_def example_window_def)
qed

text \<open>
  Claim C2. For a store whose entries are all complete and none inverted, let \<open>s\<close> be the
  intervals sorted ascending by enter frame. If position \<open>i\<close> is the first adjacent pair of
  \<open>s\<close> whose second interval enters at or before the exit of the first (equality
  included), validation fails with the overlap error naming the two intruders of that
  pair, and \<^verbatim>\<open>clip_by_annotations\<close> returns failure with that message.
\<close>

theorem overlap_rejected:
  assumes "\<forall>(name, d) \<in> set anns. \<exists>e x. enter d = Some e \<and> exit d = Some x \<and> e \<le> x"
    and "s = sort_intervals (intervals_of anns)"
    and "i + 1 < length s"
    and "enter_frame (s ! (i + 1)) \<le> exit_frame (s ! i)"
    and "\<forall>j<i. exit_frame (s ! j) < enter_frame (s ! (j + 1))"
  shows "sorted (map enter_frame s)
       \<and> validate anns = Inl (Overlap (intruder (s ! i)) (intruder (s ! (i + 1))))
       \<and> success (clip_by_annotations self sink_opens anns video_path source) = False
       \<and> message (clip_by_annotations self sink_opens anns video_path source)
           = error_message (Overlap (intruder (s ! i)) (intruder (s ! (i + 1))))"
proof -
  have c: "collect_intervals anns [] = Inr (intervals_of anns)"
    by (rule collect_intervals_complete[OF assms(1)])
  have o: "check_overlap s = Some (Overlap (intruder (s ! i)) (intruder (s ! (i + 1))))"
    by (rule check_overlap_first[OF assms(3,4,5)])
  have v: "validate anns = Inl (Overlap (intruder (s ! i)) (intruder (s ! (i + 1))))"
    using c o assms(2) by (simp add: validate_def Let_def)
  have so: "sorted (map enter_frame s)" unfolding assms(2) sort_intervals_def by simp
  from so v show ?thesis by (simp add: clip_by_annotations_def)
qed

text \<open>
  The example of the specification: B ends at frame 20 and C enters at frame 20.
\<close>

theorem overlap_rejected_witness:
  "validate touching_intruders = Inl (Overlap ''B'' ''C'')
   \<and> success (clip_by_annotations example_window (\<lambda>dir name. True) touching_intruders
        ''in.avi'' (Some (example_video 100))) = False
   \<and> message (clip_by_annotations example_window (\<lambda>dir name. True) touching_intruders
        ''in.avi'' (Some (example_video 100))) = error_message (Overlap ''B'' ''C'')"
proof -
  let ?s = "[(1::int, 10::int, ''A''), (15, 20, ''B''), (20, 25, ''C'')]"
  have "sorted (map enter_frame ?s)
     \<and> validate touching_intruders = Inl (Overlap (intruder (?s ! 1)) (intruder (?s ! (1 + 1))))
     \<and> success (clip_by_annotations example_window (\<lambda>dir name. True) touching_intruders
          ''in.avi'' (Some (example_video 100))) = False
     \<and> message (clip_by_annotations example_window (\<lambda>dir name. True) touching_intruders
          ''in.avi'' (Some (example_video 100)))
         = error_message (Overlap (intruder (?s ! 1)) (intruder (?s ! (1 + 1))))"
  proof (rule overlap_rejected)
    show "\<forall>(name, d)\<in>set touching_intruders. \<exists>e x. enter d = Some e \<and> exit d = Some x \<and> e \<le> x"
      by (simp add: touching_intruders_def)
    show "?s = sort_intervals (intervals_of touching_intruders)" by (simp add: sort_touching)
    show "1 + 1 < length ?s" by simp
    show "enter_frame (?s ! (1 + 1)) \<le> exit_frame (?s ! 1)"
      by (simp add: enter_frame_def exit_frame_def)
    show "\<forall>j<1. exit_frame (?s ! j) < enter_frame (?s ! (j + 1))"
      by (simp add: enter_frame_def exit_frame_def)
  qed
  then show ?thesis by (simp add: intruder_def)
qed

text \<open>
  Claim C3 as stated fails: at 25 frames per second frame 2 is sent to 40 ms, and 40 ms is
  sent back to frame 1.
\<close>

theorem round_trip_counterexample:
  "frame_to_ms 2 25 = 40 \<and> ms_to_frame 40 25 = 1 \<and> ms_to_frame (frame_to_ms 2 25) 25 \<noteq> 2"
  by code_simp

text \<open>
  Claim C3, amended. For a frame rate between 1 and 1000 and a frame number between 1 and
  \<open>2 ^ 50\<close>, the round trip through \<open>frame_to_ms\<close> and \<open>ms_to_frame\<close> returns the original
  frame when the frame is 1, and for every frame from 2 on it returns a frame that is at
  least 1 and strictly below the original. The conversion back is the double arithmetic
  of the source.
\<close>

theorem round_trip_only_first_frame:
  assumes "1 \<le> fps" and "fps \<le> 1000" and "1 \<le> frame" and "frame \<le> 2 ^ 50"
  shows "(frame = 1 \<longrightarrow> ms_to_frame (frame_to_ms frame fps) fps = frame)
       \<and> (2 \<le> frame \<longrightarrow>
            1 \<le> ms_to_frame (frame_to_ms frame fps) fps
            \<and> ms_to_frame (frame_to_ms frame fps) fps < frame)"
proof -
  have f: "0 < fps" using assms(1) by simp
  show ?thesis
    using round_trip_first_frame[OF f] round_trip_below[OF f assms(2) _ assms(4)]
      ms_to_frame_ge_1[of "frame_to_ms frame fps" fps]
    by auto
qed

text \<open>
  At 25 frames per second: frame 30 comes back below 30, frame 1 comes back as 1.
\<close>

theorem round_trip_only_first_frame_witness:
  "(1::rat) \<le> 25 \<and> (25::rat) \<le> 1000 \<and> (1::int) \<le> 30 \<and> (30::int) \<le> 2 ^ 50
   \<and> 1 \<le> ms_to_frame (frame_to_ms 30 25) 25 \<and> ms_to_frame (frame_to_ms 30 25) 25 < 30
   \<and> ms_to_frame (frame_to_ms 1 25) 25 = 1"
  using round_trip_only_first_frame[of 25 30] round_trip_only_first_frame[of 25 1]
  by simp

text \<open>
  Claim C4 as stated fails: the loop stops at the first entry, in insertion order, that is
  incomplete or inverted. An incomplete entry before the inverted one gives the
  incomplete-annotation error, and of two inverted entries only the first is named.
\<close>

theorem inverted_counterexample:
  "validate incomplete_then_inverted = Inl (IncompleteAnnotation ''A'')
   \<and> validate two_inverted = Inl (InvertedInterval ''X'')
   \<and> validate two_inverted \<noteq> Inl (InvertedInterval ''Y'')"
  by (simp add: incomplete_then_inverted_def two_inverted_def validate_def)

text \<open>
  Claim C4, amended. If every entry inserted before an inverted entry is complete and not
  inverted, validation fails with the inverted-interval error naming that entry. The
  error is already the result of the collecting loop, which runs before the sort and the
  overlap scan, and nothing is opened or written.
\<close>

theorem inverted_first_offender_rejected:
  assumes "anns = before @ (name, d) # rest"
    and "\<forall>(n, d') \<in> set before. \<exists>e x. enter d' = Some e \<and> exit d' = Some x \<and> e \<le> x"
    and "enter d = Some e" and "exit d = Some x" and "x < e"
  shows "collect_intervals anns [] = Inl (InvertedInterval name)
       \<and> validate anns = Inl (InvertedInterval name)
       \<and> clip_by_annotations self sink_opens anns video_path source
           = \<lparr> success = False, message = error_message (InvertedInterval name),
               clips = [], final_cap = None \<rparr>"
proof -
  have gen: "\<forall>(n, d') \<in> set pre. \<exists>e x. enter d' = Some e \<and> exit d' = Some x \<and> e \<le> x
      \<Longrightarrow> collect_intervals (pre @ (name, d) # rest) acc = Inl (InvertedInterval name)" for pre acc
    using assms(3,4,5) by (induction pre arbitrary: acc) (auto split: option.splits)
  have c: "collect_intervals anns [] = Inl (InvertedInterval name)"
    unfolding assms(1) by (rule gen[OF assms(2)])
  then have v: "validate anns = Inl (InvertedInterval name)" by (simp add: validate_def)
  from c v show ?thesis by (simp add: clip_by_annotations_def)
qed

text \<open>
  A complete entry A followed by the inverted entry Y (enter 30, exit 10).
\<close>

theorem inverted_first_offender_rejected_witness:
  "collect_intervals complete_then_inverted [] = Inl (InvertedInterval ''Y'')
   \<and> validate complete_then_inverted = Inl (InvertedInterval ''Y'')
   \<and> clip_by_annotations example_window (\<lambda>dir name. True) complete_then_inverted ''in.avi''
        (Some (example_video 100))
       = \<lparr> success = False, message = error_message (InvertedInterval ''Y''),
           clips = [], final_cap = None \<rparr>"
proof (rule inverted_first_offender_rejected)
  show "complete_then_inverted
          = [(''A'', \<lparr> enter = Some 1, exit = Some 10 \<rparr>)]
              @ (''Y'', \<lparr> enter = Some 30, exit = Some 10 \<rparr>) # []"
    by (simp add: complete_then_inverted_def)
  show "\<forall>(n, d')\<in>set [(''A'', \<lparr> enter = Some 1, exit = Some 10 \<rparr>)].
          \<exists>e x. enter d' = Some e \<and> exit d' = Some x \<and> e \<le> x" by simp
  show "enter \<lparr> enter = Some 30, exit = Some 10 \<rparr> = Some 30" by simp
  show "exit \<lparr> enter = Some 30, exit = Some 10 \<rparr> = Some 10" by simp
  show "(10::int) < 30" by simp
qed

text \<open>
  Claim C5. When the dialog is confirmed with a non-empty name that the store already
  holds, \<^verbatim>\<open>mark_enter\<close> on an entry with an enter mark raises the already-marked
  warning and leaves the store, hence the stored enter value, as it was; so does
  \<^verbatim>\<open>mark_exit\<close> on an entry with an exit mark, whichever of its two dialogs gave the name.
\<close>

theorem duplicate_mark_rejected:
  assumes "ok" and "name \<noteq> []" and "dict_get anns name = Some d"
  shows "(enter d = Some f0 \<longrightarrow>
            mark_enter anns pos fps (name, ok) = (anns, Some (EnterAlreadyMarked name))
            \<and> dict_get (fst (mark_enter anns pos fps (name, ok))) name = Some d)
       \<and> (exit d = Some f0
            \<and> (if available anns \<noteq> [] then get_item (available anns) else get_text) = (name, ok)
          \<longrightarrow> mark_exit anns pos fps get_item get_text = (anns, Some (ExitAlreadyMarked name))
            \<and> dict_get (fst (mark_exit anns pos fps get_item get_text)) name = Some d)"
  using assms by (simp add: mark_enter_def mark_exit_def Let_def)

text \<open>
  A store holding A with enter 5 and exit 9, marked again at position 2000 ms.
\<close>

theorem duplicate_mark_rejected_witness:
  "mark_enter [(''A'', \<lparr> enter = Some 5, exit = Some 9 \<rparr>)] 2000 25 (''A'', True)
     = ([(''A'', \<lparr> enter = Some 5, exit = Some 9 \<rparr>)], Some (EnterAlreadyMarked ''A''))
   \<and> mark_exit [(''A'', \<lparr> enter = Some 5, exit = Some 9 \<rparr>)] 2000 25
       (\<lambda>names. (hd names, True)) (''A'', True)
     = ([(''A'', \<lparr> enter = Some 5, exit = Some 9 \<rparr>)], Some (ExitAlreadyMarked ''A''))"
  using duplicate_mark_rejected[of True "''A''" "[(''A'', \<lparr> enter = Some 5, exit = Some 9 \<rparr>)]"
      "\<lparr> enter = Some 5, exit = Some 9 \<rparr>" 5 2000 25]
    duplicate_mark_rejected[of True "''A''" "[(''A'', \<lparr> enter = Some 5, exit = Some 9 \<rparr>)]"
      "\<lparr> enter = Some 5, exit = Some 9 \<rparr>" 9 2000 25 "\<lambda>names. (hd names, True)" "(''A'', True)"]
  by (simp add: dict_get_def available_def)

text \<open>
  Claim C6. For an interval that passed validation and starts at frame 1 or later, on a
  source with fewer frames than its exit frame, the clip holds the frames from the enter
  frame to the last frame of the source; the function still returns success with its
  summary message and has produced one writer per interval.
\<close>

theorem clip_truncated_at_end:
  assumes "validate anns = Inr ivs" and "i < length ivs"
    and "1 \<le> enter_frame (ivs ! i)"
    and "int (length (video_frames v)) < exit_frame (ivs ! i)"
    and "sink_opens (out_dir self) (output_name self (intruder (ivs ! i)))"
  shows "success (clip_by_annotations self sink_opens anns video_path (Some v))
       \<and> message (clip_by_annotations self sink_opens anns video_path (Some v))
           = ''Successfully clipped intruders for file '' @ input_name self @ ''.''
       \<and> length (clips (clip_by_annotations self sink_opens anns video_path (Some v))) = length ivs
       \<and> w_frames (clips (clip_by_annotations self sink_opens anns video_path (Some v)) ! i)
           = map (\<lambda>k. video_frames v ! nat (k - 1))
               [enter_frame (ivs ! i)..int (length (video_frames v))]"
proof -
  let ?r = "clip_by_annotations self sink_opens anns video_path (Some v)"
  let ?iv = "ivs ! i"
  let ?fs = "video_frames v"
  note cv = clip_by_annotations_valid[OF assms(1), of self sink_opens video_path v]
  have c: "clips ?r ! i = expected_clip self sink_opens (effective_fps (video_fps v))
                   (video_width v, video_height v) ?fs ?iv"
    using cv(3) assms(2) by simp
  have "frames_from ?fs (enter_frame ?iv - 1) (enter_frame ?iv) (exit_frame ?iv)
          = drop (nat (enter_frame ?iv - 1)) ?fs"
    using assms(3,4) by (intro frames_truncated) auto
  also have "\<dots> = frames_from ?fs (enter_frame ?iv - 1) (enter_frame ?iv) (int (length ?fs))"
    using assms(3) by (intro frames_truncated[symmetric]) auto
  also have "\<dots> = map (\<lambda>k. ?fs ! nat (k - 1)) [enter_frame ?iv..int (length ?fs)]"
    using assms(3) by (intro frames_in_range) auto
  finally have f: "w_frames (clips ?r ! i)
      = map (\<lambda>k. ?fs ! nat (k - 1)) [enter_frame ?iv..int (length ?fs)]"
    unfolding c using assms(5) by (simp add: expected_clip_def)
  have l: "length (clips ?r) = length ivs" using cv(3) by simp
  from cv(1,2) l f show ?thesis by simp
qed

text \<open>
  A source of 95 frames and the interval (90, 100, X): the clip holds frames 90 to 95.
\<close>

theorem clip_truncated_at_end_witness:
  "validate (intruder_x 90 100) = Inr [(90, 100, ''X'')]
   \<and> success (clip_by_annotations example_window (\<lambda>dir name. True) (intruder_x 90 100)
        ''in.avi'' (Some (example_video 95)))
   \<and> w_frames (clips (clip_by_annotations example_window (\<lambda>dir name. True) (intruder_x 90 100)
        ''in.avi'' (Some (example_video 95))) ! 0)
       = map (\<lambda>k. video_frames (example_video 95) ! nat (k - 1)) [90..95]"
proof -
  have v: "validate (intruder_x 90 100) = Inr [(90, 100, ''X'')]"
    by (rule validate_intruder_x) simp
  have "success (clip_by_annotations example_window (\<lambda>dir name. True) (intruder_x 90 100)
           ''in.avi'' (Some (example_video 95)))
     \<and> message (clip_by_annotations example_window (\<lambda>dir name. True) (intruder_x 90 100)
           ''in.avi'' (Some (example_video 95)))
         = ''Successfully clipped intruders for file '' @ input_name example_window @ ''.''
     \<and> length (clips (clip_by_annotations example_window (\<lambda>dir name. True) (intruder_x 90 100)
           ''in.avi'' (Some (example_video 95)))) = length [(90::int, 100::int, ''X'')]
     \<and> w_frames (clips (clip_by_annotations example_window (\<lambda>dir name. True) (intruder_x 90 100)
           ''in.avi'' (Some (example_video 95))) ! 0)
         = map (\<lambda>k. video_frames (example_video 95) ! nat (k - 1))
             [enter_frame ([(90, 100, ''X'')] ! 0)..int (length (video_frames (example_video 95)))]"
    by (rule clip_truncated_at_end[OF v])
       (simp_all add: enter_frame_def exit_frame_def example_video_def)
  then show ?thesis using v
    by (simp add: enter_frame_def example_video_def)
qed

text \<open>
  Claim C7. For a store whose entries are all complete and none inverted, whatever the
  insertion order, the list \<open>s\<close> that validation scans for overlaps, and returns when it
  finds none, holds the same intervals sorted ascending by enter frame, intervals with
  equal enter frame keeping their insertion order. When the intervals are moreover
  pairwise disjoint, validation succeeds and returns \<open>s\<close>.
\<close>

theorem validated_sorted_stable:
  assumes "\<forall>(name, d) \<in> set anns. \<exists>e x. enter d = Some e \<and> exit d = Some x \<and> e \<le> x"
  shows "\<exists>s. sorted (map enter_frame s)
           \<and> mset s = mset (intervals_of anns)
           \<and> (\<forall>k. filter (\<lambda>iv. enter_frame iv = k) s
                    = filter (\<lambda>iv. enter_frame iv = k) (intervals_of anns))
           \<and> validate anns = (case check_overlap s of Some err \<Rightarrow> Inl err | None \<Rightarrow> Inr s)
           \<and> ((\<forall>i j. i < j \<and> j < length anns \<longrightarrow>
                  disjoint_intervals (intervals_of anns ! i) (intervals_of anns ! j))
                \<longrightarrow> validate anns = Inr s)"
proof -
  let ?ivs = "intervals_of anns"
  let ?s = "sort_intervals ?ivs"
  have c: "collect_intervals anns [] = Inr ?ivs"
    by (rule collect_intervals_complete[OF assms])
  have len: "length ?ivs = length anns" by (simp add: intervals_of_def)
  have v: "validate anns = (case check_overlap ?s of Some err \<Rightarrow> Inl err | None \<Rightarrow> Inr ?s)"
    using c by (simp add: validate_def Let_def)
  have so: "sorted (map enter_frame ?s)" by (simp add: sort_intervals_def)
  have ms: "mset ?s = mset ?ivs" by (simp add: sort_intervals_def)
  have st: "\<forall>k. filter (\<lambda>iv. enter_frame iv = k) ?s = filter (\<lambda>iv. enter_frame iv = k) ?ivs"
    by (simp add: sort_intervals_def filter_sort[symmetric] sort_key_stable)
  have d: "(\<forall>i j. i < j \<and> j < length anns \<longrightarrow>
                  disjoint_intervals (?ivs ! i) (?ivs ! j)) \<longrightarrow> validate anns = Inr ?s"
  proof
    assume h: "\<forall>i j. i < j \<and> j < length anns \<longrightarrow> disjoint_intervals (?ivs ! i) (?ivs ! j)"
    have dis: "sorted_wrt disjoint_intervals ?ivs"
      using h len by (simp add: sorted_wrt_iff_nth_less)
    have "check_overlap ?s = None"
      by (rule adjacent_after_sort[OF dis intervals_of_noninverted[OF assms]])
    with v show "validate anns = Inr ?s" by simp
  qed
  from so ms st v d show ?thesis by blast
qed

text \<open>
  A store with a tie: Q (5, 7) inserted before P (5, 5), then A (1, 2). Sorting gives A, Q,
  P, so the overlap found is reported as Q, P in insertion order. The example of the
  specification, B (15, 20) inserted before A (1, 10), comes back as A, B.
\<close>

theorem validated_sorted_stable_witness:
  "sort_intervals (intervals_of tied_intruders) = [(1, 2, ''A''), (5, 7, ''Q''), (5, 5, ''P'')]
   \<and> validate tied_intruders = Inl (Overlap ''Q'' ''P'')
   \<and> validate unordered_intruders = Inr [(1, 10, ''A''), (15, 20, ''B'')]
   \<and> (\<exists>s. sorted (map enter_frame s)
           \<and> mset s = mset (intervals_of tied_intruders)
           \<and> (\<forall>k. filter (\<lambda>iv. enter_frame iv = k) s
                    = filter (\<lambda>iv. enter_frame iv = k) (intervals_of tied_intruders))
           \<and> validate tied_intruders
               = (case check_overlap s of Some err \<Rightarrow> Inl err | None \<Rightarrow> Inr s))"
proof -
  have h: "\<forall>(name, d)\<in>set tied_intruders. \<exists>e x. enter d = Some e \<and> exit d = Some x \<and> e \<le> x"
    by (simp add: tied_intruders_def)
  have u: "validate unordered_intruders = Inr [(1, 10, ''A''), (15, 20, ''B'')]"
    by (simp add: unordered_intruders_def validate_def sort_intervals_def enter_frame_def
        exit_frame_def)
  from validated_sorted_stable[OF h] have
    "\<exists>s. sorted (map enter_frame s)
           \<and> mset s = mset (intervals_of tied_intruders)
           \<and> (\<forall>k. filter (\<lambda>iv. enter_frame iv = k) s
                    = filter (\<lambda>iv. enter_frame iv = k) (intervals_of tied_intruders))
           \<and> validate tied_intruders
               = (case check_overlap s of Some err \<Rightarrow> Inl err | None \<Rightarrow> Inr s)"
    by blast
  with sort_tied validate_tied u show ?thesis by blast
qed

text \<open>
  Claim C8 at an input where the source breaks it: ffmpeg exits with status 1 and its
  error output is the single byte 0xFF, which is not UTF-8. Building the failure message
  raises \<^verbatim>\<open>UnicodeDecodeError\<close>, so no failure is returned. Lemma
  \<open>video_to_avi_returns\<close> says that this is the only way not to return, and that success is
  returned exactly on exit status 0 with an output file of at least 1000 bytes.
\<close>

theorem video_to_avi_undecodable_stderr:
  "utf8_decode [0xFF] = None
   \<and> video_to_avi ''in.seq'' ''in_temp.avi'' 1 [0xFF] None = Inl UnicodeDecodeError"
  by (simp add: video_to_avi_def)

text \<open>
  Claim C9 as stated fails on ``is reported'': with the sink of intruder A failing to open,
  the function returns the same success pair as the run in which every sink opens. The
  clip of A holds no frame and the clip of B holds its frames 4 and 5.
\<close>

theorem sink_failure_counterexample:
  "success sink_failure_run
   \<and> message sink_failure_run = ''Successfully clipped intruders for file in.seq.''
   \<and> (success sink_failure_run, message sink_failure_run)
       = (success all_sinks_run, message all_sinks_run)
   \<and> map w_opened (clips sink_failure_run) = [False, True]
   \<and> map w_frames (clips sink_failure_run) = [[], [4, 5]]"
proof -
  note a = clip_by_annotations_valid[OF validate_two_intruders, of example_window
      "\<lambda>dir name. name \<noteq> ''out_Aintruder.mp4''" "''in.avi''" "example_video 6"]
  note b = clip_by_annotations_valid[OF validate_two_intruders, of example_window
      "\<lambda>dir name. True" "''in.avi''" "example_video 6"]
  have fr: "frames_from [Suc 0..<7] 3 4 5 = [4, 5::nat]"
    by (simp add: frames_from_def upt_rec)
  show ?thesis
    unfolding sink_failure_run_def all_sinks_run_def a(2) a(3) b(2)
    using a(1) b(1)
    by (simp add: expected_clip_def example_window_def example_video_def output_name_def
        out_dir_def intruder_def enter_frame_def exit_frame_def fr)
qed

text \<open>
  Claim C9, amended. Once validation has passed, a source that cannot be opened fails the
  whole call with no clip; with a source that opens the call returns success and its
  summary message whatever sinks fail to open, and the clip of each interval depends on
  that interval and its own sink alone: no frame when the sink did not open, its frames
  otherwise.
\<close>

theorem sink_failure_not_reported:
  assumes "validate anns = Inr ivs"
  shows "clip_by_annotations self sink_opens anns video_path None
           = \<lparr> success = False, message = error_message (SourceUnopenable video_path),
               clips = [], final_cap = (None :: 'f capture option) \<rparr>
       \<and> success (clip_by_annotations self sink_opens anns video_path (Some v))
       \<and> message (clip_by_annotations self sink_opens anns video_path (Some v))
           = ''Successfully clipped intruders for file '' @ input_name self @ ''.''
       \<and> clips (clip_by_annotations self sink_opens anns video_path (Some v))
           = map (expected_clip self sink_opens (effective_fps (video_fps v))
                   (video_width v, video_height v) (video_frames v)) ivs"
proof -
  note cv = clip_by_annotations_valid[OF assms, of self sink_opens video_path v]
  have "clip_by_annotations self sink_opens anns video_path None
           = \<lparr> success = False, message = error_message (SourceUnopenable video_path),
               clips = [], final_cap = (None :: 'f capture option) \<rparr>"
    using assms by (simp add: clip_by_annotations_def)
  with cv(1,2,3) show ?thesis by simp
qed

text \<open>
  The run above, with the sink of A failing.
\<close>

theorem sink_failure_not_reported_witness:
  "validate two_intruders = Inr [(1, 2, ''A''), (4, 5, ''B'')]
   \<and> success sink_failure_run
   \<and> clips sink_failure_run
       = map (expected_clip example_window (\<lambda>dir name. name \<noteq> ''out_Aintruder.mp4'')
                (effective_fps (video_fps (example_video 6)))
                (video_width (example_video 6), video_height (example_video 6))
                (video_frames (example_video 6)))
           [(1, 2, ''A''), (4, 5, ''B'')]"
  using sink_failure_not_reported[OF validate_two_intruders, of example_window
      "\<lambda>dir name. name \<noteq> ''out_Aintruder.mp4''" "''in.avi''" "example_video 6"]
    validate_two_intruders
  unfolding sink_failure_run_def by blast

text \<open>
  Claim C10. On an empty store and a source that opens, validation yields no interval and
  \<^verbatim>\<open>clip_by_annotations\<close> returns success with its summary message, no clip, and the
  capture released at position 0.
\<close>

theorem empty_store_succeeds:
  "validate [] = Inr []
   \<and> clip_by_annotations self sink_opens [] video_path (Some v)
       = \<lparr> success = True,
           message = ''Successfully clipped intruders for file '' @ input_name self @ ''.'',
           clips = [],
           final_cap = Some \<lparr> cap_frames = video_frames v, cap_pos = 0, cap_released = True \<rparr> \<rparr>"
proof -
  have v: "validate [] = Inr []" by (simp add: validate_def sort_intervals_def)
  then show ?thesis
    by (simp add: clip_by_annotations_def Let_def cap_open_def cap_release_def)
qed

end
